theory Spec2Isabelle
  imports Main "HOL-Library.Sublist"
begin

section \<open>Text primitives of the migration script\<close>

text \<open>
  The script \<^verbatim>\<open>migrate-logger.py\<close> works on Python strings. A string is modelled as a
  \<^typ>\<open>string\<close> (a list of characters with codes below 256). A stored file is the list
  of its characters, carriage returns included; what the script gets from it in text
  mode is \<open>read_text\<close> of that list, defined with the files below.
\<close>

text \<open>Python's \<^verbatim>\<open>sub in s\<close> on strings.\<close>

fun str_in :: "string \<Rightarrow> string \<Rightarrow> bool" where
  "str_in sub [] = (sub = [])"
| "str_in sub (c # cs) = (prefix sub (c # cs) \<or> str_in sub cs)"

text \<open>\<^verbatim>\<open>s.split(d)\<close> for a one-character separator: never empty, one more field than
  there are separators.\<close>

fun split_on :: "char \<Rightarrow> string \<Rightarrow> string list" where
  "split_on d [] = [[]]"
| "split_on d (c # cs) =
     (if c = d then [] # split_on d cs
      else (case split_on d cs of
              [] \<Rightarrow> [[c]]
            | l # ls \<Rightarrow> (c # l) # ls))"

text \<open>\<^verbatim>\<open>sep.join(parts)\<close>.\<close>

fun join :: "string \<Rightarrow> string list \<Rightarrow> string" where
  "join sep [] = []"
| "join sep [l] = l"
| "join sep (l # m # ls) = l @ sep @ join sep (m # ls)"

text \<open>The whitespace that \<^verbatim>\<open>str.strip()\<close> removes, among the characters below 256: tab,
  line feed, vertical tab, form feed, carriage return, the four separators 0x1C..0x1F,
  the space, the next-line character 0x85 and the no-break space 0xA0.\<close>

definition is_space :: "char \<Rightarrow> bool" where
  "is_space c =
     (c \<in> {CHR 0x09, CHR 0x0A, CHR 0x0B, CHR 0x0C, CHR 0x0D,
            CHR 0x1C, CHR 0x1D, CHR 0x1E, CHR 0x1F, CHR 0x20, CHR 0x85, CHR 0xA0})"

definition strip :: "string \<Rightarrow> string" where
  "strip s = rev (dropWhile is_space (rev (dropWhile is_space s)))"

text \<open>\<^verbatim>\<open>re.sub(pat, rep, s)\<close> for a pattern that is a non-empty literal (each of the
  script's five patterns is one, \<^verbatim>\<open>\.\<close> and \<^verbatim>\<open>\(\<close> being escaped characters): scan
  from the left, replace a match and go on behind it. With an empty pattern the model
  copies the text.\<close>

fun replace_all :: "string \<Rightarrow> string \<Rightarrow> string \<Rightarrow> string" where
  "replace_all pat rep [] = []"
| "replace_all pat rep (c # cs) =
     (if pat \<noteq> [] \<and> prefix pat (c # cs)
      then rep @ replace_all pat rep (drop (length pat - 1) cs)
      else c # replace_all pat rep cs)"

text \<open>The number of positions at which a literal occurs in a text.\<close>

fun occurrences :: "string \<Rightarrow> string \<Rightarrow> nat" where
  "occurrences pat [] = 0"
| "occurrences pat (c # cs) =
     (if prefix pat (c # cs) then 1 else 0) + occurrences pat cs"

section \<open>Scope classification: \<^verbatim>\<open>get_scope\<close>\<close>

text \<open>\<^verbatim>\<open>Path(filepath).name\<close> on a POSIX path: the last component that is neither empty
  nor a single dot, the empty string when there is none.\<close>

definition path_name :: "string \<Rightarrow> string" where
  "path_name p =
     (case filter (\<lambda>x. x \<noteq> [] \<and> x \<noteq> ''.'') (split_on CHR ''/'' p) of
        [] \<Rightarrow> []
      | x # xs \<Rightarrow> last (x # xs))"

text \<open>\<^verbatim>\<open>name.rfind('.')\<close>: the index of the last dot, or -1.\<close>

definition rfind_dot :: "string \<Rightarrow> int" where
  "rfind_dot s =
     (if CHR ''.'' \<in> set s
      then int (length s) - 1 - int (length (takeWhile (\<lambda>c. c \<noteq> CHR ''.'') (rev s)))
      else - 1)"

text \<open>\<^verbatim>\<open>Path(filepath).stem\<close>: the name without its last suffix; a leading or a trailing
  dot starts no suffix.\<close>

definition stem :: "string \<Rightarrow> string" where
  "stem p =
     (let name = path_name p; i = rfind_dot name
      in if 0 < i \<and> i < int (length name) - 1 then take (nat i) name else name)"

text \<open>Group 1 of \<^verbatim>\<open>src/app/api/([^/]+(?:/[^/]+)?)\<close> matched at the start of a text: a
  non-empty run without a slash, greedily extended by a slash and a second such run.\<close>

definition api_match_here :: "string \<Rightarrow> string option" where
  "api_match_here s =
     (if prefix ''src/app/api/'' s then
        (let r = drop (length ''src/app/api/'') s;
             c1 = takeWhile (\<lambda>c. c \<noteq> CHR ''/'') r;
             r1 = dropWhile (\<lambda>c. c \<noteq> CHR ''/'') r
         in if c1 = [] then None
            else (case r1 of
                    [] \<Rightarrow> Some c1
                  | _ # r2 \<Rightarrow>
                      (let c2 = takeWhile (\<lambda>c. c \<noteq> CHR ''/'') r2
                       in if c2 = [] then Some c1 else Some (c1 @ ''/'' @ c2))))
      else None)"

text \<open>\<^verbatim>\<open>re.search\<close> of that pattern: the leftmost position with a match.\<close>

fun api_search :: "string \<Rightarrow> string option" where
  "api_search [] = None"
| "api_search (c # cs) =
     (case api_match_here (c # cs) of
        Some g \<Rightarrow> Some g
      | None \<Rightarrow> api_search cs)"

text \<open>\<^verbatim>\<open>g.replace('/', ':')\<close>.\<close>

definition slash_to_colon :: "string \<Rightarrow> string" where
  "slash_to_colon g = map (\<lambda>c. if c = CHR ''/'' then CHR '':'' else c) g"

text \<open>\<^verbatim>\<open>get_scope\<close>, lines 85-112: the first branch of the chain that applies decides;
  \<^verbatim>\<open>None\<close> stands for the default logger.\<close>

definition get_scope :: "string \<Rightarrow> string option" where
  "get_scope filepath =
     (if str_in ''api/'' filepath then
        (case api_search filepath of
           Some g \<Rightarrow> Some (''api:'' @ slash_to_colon g)
         | None \<Rightarrow> Some ''api:unknown'')
      else if str_in ''services/'' filepath \<and> str_in ''ValidationService'' filepath then
        Some (''validation:'' @ stem filepath)
      else if str_in ''services/'' filepath then
        Some (''service:'' @ stem filepath)
      else if str_in ''domain/entities/'' filepath then
        Some (''domain:entity:'' @ stem filepath)
      else if str_in ''domain/value-objects/'' filepath then
        Some (''domain:vo:'' @ stem filepath)
      else if str_in ''repositories/'' filepath then
        Some (''repository:'' @ stem filepath)
      else if str_in ''config/'' filepath then
        Some (''config:'' @ stem filepath)
      else None)"

section \<open>The manifest\<close>

text \<open>\<^verbatim>\<open>FILES_TO_MIGRATE\<close>, lines 12-83, in the order of the source.\<close>

definition FILES_TO_MIGRATE :: "string list" where
  "FILES_TO_MIGRATE =
     [
      ''src/app/api/account-balances/route.ts'',
      ''src/app/api/history/route.ts'',
      ''src/app/api/get-latest-rate/route.ts'',
      ''src/app/api/rate-history/route.ts'',
      ''src/app/api/publish-rate/route.ts'',
      ''src/app/api/portfolio/update-prices/route.ts'',
      ''src/app/api/withdraw/route.ts'',
      ''src/app/api/deposit/route.ts'',
      ''src/services/portfolioPriceService.ts'',
      ''src/services/portfolioAuthService.ts'',
      ''src/services/portfolioWalletService.ts'',
      ''src/services/token.services.ts'',
      ''src/services/hederaService.ts'',
      ''src/services/telegramService.ts'',
      ''src/services/hederaRateService.ts'',
      ''src/services/withdrawService.ts'',
      ''src/services/saucerSwapService.ts'',
      ''src/services/defiService.ts'',
      ''src/features/withdrawals/services/WithdrawValidationService.ts'',
      ''src/features/deposits/services/DepositValidationService.ts'',
      ''src/features/rates/services/RateValidationService.ts'',
      ''src/domain/entities/Withdrawal.ts'',
      ''src/domain/entities/Deposit.ts'',
      ''src/domain/value-objects/AccountId.ts'',
      ''src/domain/value-objects/Rate.ts'',
      ''src/domain/value-objects/Money.ts'',
      ''src/core/repositories/IRateRepository.ts'',
      ''src/core/repositories/IWithdrawRepository.ts'',
      ''src/core/repositories/IDepositRepository.ts'',
      ''src/hooks/useSyncCooldown.ts'',
      ''src/hooks/useWalletOrder.ts'',
      ''src/hooks/useWalletCollapse.ts'',
      ''src/hooks/useHederaAuth.ts'',
      ''src/hooks/usePortfolioWallets.ts'',
      ''src/hooks/useRealTimeRate.ts'',
      ''src/hooks/useTVL.ts'',
      ''src/hooks/useTokenPriceRealtime.ts'',
      ''src/hooks/usePortfolioAuth.ts'',
      ''src/hooks/useWithdrawals.ts'',
      ''src/hooks/useProcessModal.ts'',
      ''src/hooks/useWithdrawSubmit.ts'',
      ''src/hooks/useHistory.ts'',
      ''src/hooks/useInstantWithdraw.ts'',
      ''src/components/aggregated-portfolio-view.tsx'',
      ''src/components/base-wallet-button.tsx'',
      ''src/components/account-dialog.tsx'',
      ''src/components/withdraw-dialog.tsx'',
      ''src/components/process-modal.tsx'',
      ''src/components/add-wallet-dialog.tsx'',
      ''src/app/(protocol)/earn/components/mint-action-button.tsx'',
      ''src/app/(protocol)/earn/components/trading-interface.tsx'',
      ''src/app/(protocol)/earn/components/redeem-action-button.tsx'',
      ''src/app/(protocol)/hcf-vault/components/hcf-trading-interface.tsx'',
      ''src/app/(protocol)/earn/hooks/useAccountID.tsx'',
      ''src/app/(protocol)/earn/hooks/useTokenBalances.tsx'',
      ''src/app/(protocol)/portfolio/page.tsx'',
      ''src/config/serverEnv.ts'',
      ''src/app/providers/wallet-provider.tsx''
     ]"

section \<open>Files and output\<close>

text \<open>
  The lines the script prints, one constructor per \<^verbatim>\<open>print\<close> call of the source (the
  glyphs of the messages are not part of the model).
\<close>

datatype message =
    Rule
  | Title
  | Blank
  | FileNotFound string
  | AlreadyMigrated string
  | NoConsole string
  | Migrating string
  | Migrated string
  | SummaryTitle
  | TotalFiles int
  | MigratedCount int
  | SkippedCount int
  | ReviewWarning
  | BackupNote
  | RemoveIntro
  | RemoveCommand

text \<open>What the script does to the world outside, in the order it does it.\<close>

datatype event = Print message | Write string string

text \<open>
  The files are a map from a path to the characters stored in the file there;
  \<^verbatim>\<open>exists()\<close> is membership in its domain. The trace records every print and every
  write, oldest first.
\<close>

record world =
  files :: "string \<rightharpoonup> string"
  trace :: "event list"

definition print :: "message \<Rightarrow> world \<Rightarrow> world" where
  "print m w = w\<lparr>trace := trace w @ [Print m]\<rparr>"

text \<open>\<^verbatim>\<open>open(p, 'r')\<close> followed by \<^verbatim>\<open>f.read()\<close>, lines 123-124. The file is opened in
  text mode with the default newline handling: a carriage return followed by a line
  feed, and a carriage return alone, each arrive as one line feed.\<close>

fun read_text :: "string \<Rightarrow> string" where
  "read_text [] = []"
| "read_text [c] = [if c = CHR 0x0D then CHR 0x0A else c]"
| "read_text (c # d # cs) =
     (if c = CHR 0x0D
      then CHR 0x0A # (if d = CHR 0x0A then read_text cs else read_text (d # cs))
      else c # read_text (d # cs))"

text \<open>\<^verbatim>\<open>open(p, 'w')\<close> followed by \<^verbatim>\<open>f.write(text)\<close>, lines 139-140 and 174-175: the
  file at \<open>p\<close> is created or replaced. Text mode writes each line feed as the line
  separator of the platform; the script is a POSIX one (\<^verbatim>\<open>#!/usr/bin/env python3\<close>), where
  the separator is the line feed itself, so the characters stored are those of the
  text.\<close>

definition write_file :: "string \<Rightarrow> string \<Rightarrow> world \<Rightarrow> world" where
  "write_file p text w =
     w\<lparr>files := (files w)(p \<mapsto> text), trace := trace w @ [Write p text]\<rparr>"

text \<open>\<^verbatim>\<open>base_dir / filepath\<close> for a relative path, as a string.\<close>

definition full_path_of :: "string \<Rightarrow> string \<Rightarrow> string" where
  "full_path_of base_dir filepath = base_dir @ ''/'' @ filepath"

section \<open>The steps of \<^verbatim>\<open>migrate_file\<close>\<close>

text \<open>Line 127: the text names the logger module, in single or in double quotes.\<close>

definition already_migrated :: "string \<Rightarrow> bool" where
  "already_migrated content =
     (str_in (CHR 0x27 # ''@/lib/logger'' @ [CHR 0x27]) content \<or>
      str_in (CHR 0x22 # ''@/lib/logger'' @ [CHR 0x22]) content)"

text \<open>Line 132: \<^verbatim>\<open>re.search(r'console\.(log|error|warn|info|debug)', content)\<close>. The
  pattern is the literal \<^verbatim>\<open>console.\<close> followed by one of five words, so it is found
  exactly when one of the five literals occurs.\<close>

definition has_console :: "string \<Rightarrow> bool" where
  "has_console content =
     (str_in ''console.log'' content \<or> str_in ''console.error'' content \<or>
      str_in ''console.warn'' content \<or> str_in ''console.info'' content \<or>
      str_in ''console.debug'' content)"

text \<open>Lines 144-149: \<^verbatim>\<open>if scope:\<close> is false for \<^verbatim>\<open>None\<close> and for the empty string.\<close>

definition import_statement :: "string option \<Rightarrow> string" where
  "import_statement scope =
     (case scope of
        None \<Rightarrow> ''import { logger } from '@/lib/logger'\<newline>''
      | Some s \<Rightarrow>
          if s = [] then ''import { logger } from '@/lib/logger'\<newline>''
          else ''import { createScopedLogger } from '@/lib/logger'\<newline>\<newline>const logger = createScopedLogger(''
               @ [CHR 0x27] @ s @ [CHR 0x27] @ '')\<newline>'')"

text \<open>Line 155: the test of one line.\<close>

definition is_import_line :: "string \<Rightarrow> bool" where
  "is_import_line line = (prefix ''import '' (strip line) \<and> \<not> str_in ''type'' line)"

text \<open>Lines 153-156: the loop keeps the index of the last line that passes the test,
  starting from -1.\<close>

definition last_import_idx :: "string list \<Rightarrow> int" where
  "last_import_idx lines =
     fold (\<lambda>(i, line) idx. if is_import_line line then int i else idx)
          (enumerate 0 lines) (- 1)"

text \<open>Lines 152-164. \<^verbatim>\<open>lines.insert(k, x)\<close> puts \<open>x\<close> before index \<open>k\<close>, and at the end
  when \<open>k\<close> is the length.\<close>

definition insert_import :: "string \<Rightarrow> string \<Rightarrow> string" where
  "insert_import content stmt =
     (let lines = split_on CHR ''\<newline>'' content;
          k = last_import_idx lines
      in if 0 \<le> k
         then join ''\<newline>'' (take (nat (k + 1)) lines @ [stmt] @ drop (nat (k + 1)) lines)
         else stmt @ ''\<newline>'' @ content)"

text \<open>Lines 167-171: the five substitutions, one after the other.\<close>

definition replace_console :: "string \<Rightarrow> string" where
  "replace_console content =
     (let c1 = replace_all ''console.log('' ''logger.info('' content;
          c2 = replace_all ''console.error('' ''logger.error('' c1;
          c3 = replace_all ''console.warn('' ''logger.warn('' c2;
          c4 = replace_all ''console.info('' ''logger.info('' c3
      in replace_all ''console.debug('' ''logger.debug('' c4)"

text \<open>\<^verbatim>\<open>migrate_file\<close>, lines 114-178: the returned flag and the world afterwards.\<close>

definition migrate_file :: "string \<Rightarrow> string \<Rightarrow> world \<Rightarrow> bool \<times> world" where
  "migrate_file filepath base_dir w =
     (let full_path = full_path_of base_dir filepath
      in case files w full_path of
           None \<Rightarrow> (False, print (FileNotFound filepath) w)
         | Some stored \<Rightarrow>
             (let content = read_text stored
              in if already_migrated content then (False, print (AlreadyMigrated filepath) w)
                 else if \<not> has_console content then (False, print (NoConsole filepath) w)
                 else
                   (let w1 = print (Migrating filepath) w;
                        w2 = write_file (full_path @ ''.bak'') content w1;
                        stmt = import_statement (get_scope filepath);
                        content' = replace_console (insert_import content stmt);
                        w3 = write_file full_path content' w2
                    in (True, print (Migrated filepath) w3))))"

section \<open>The batch: \<^verbatim>\<open>main\<close>\<close>

record counters =
  total :: int
  migrated :: int
  skipped :: int

text \<open>Lines 192-197: one iteration per entry, in order.\<close>

fun migrate_loop :: "string \<Rightarrow> string list \<Rightarrow> counters \<times> world \<Rightarrow> counters \<times> world" where
  "migrate_loop base_dir [] (c, w) = (c, w)"
| "migrate_loop base_dir (filepath # rest) (c, w) =
     (let c1 = c\<lparr>total := total c + 1\<rparr>;
          (ok, w') = migrate_file filepath base_dir w;
          c2 = (if ok then c1\<lparr>migrated := migrated c1 + 1\<rparr>
                else c1\<lparr>skipped := skipped c1 + 1\<rparr>)
      in migrate_loop base_dir rest (c2, w'))"

text \<open>Lines 180-213, for a manifest \<open>ms\<close>; the script's own run is \<open>main\<close> below.\<close>

definition run :: "string list \<Rightarrow> string \<Rightarrow> world \<Rightarrow> counters \<times> world" where
  "run ms base_dir w =
     (let w1 = print Blank (print Rule (print Title (print Rule w)));
          (c, w2) = migrate_loop base_dir ms (\<lparr>total = 0, migrated = 0, skipped = 0\<rparr>, w1);
          w3 = print Blank (print (SkippedCount (skipped c)) (print (MigratedCount (migrated c))
                 (print (TotalFiles (total c)) (print Rule (print SummaryTitle
                   (print Rule (print Blank w2)))))));
          w4 = (if 0 < migrated c
                then print RemoveCommand (print RemoveIntro (print Blank
                       (print BackupNote (print ReviewWarning w3))))
                else w3)
      in (c, w4))"

definition main :: "string \<Rightarrow> world \<Rightarrow> counters \<times> world" where
  "main base_dir w = run FILES_TO_MIGRATE base_dir w"

section \<open>Reading the trace\<close>

text \<open>The three lines that report a skipped entry, and the line that reports a migrated
  one.\<close>

fun is_skip_print :: "event \<Rightarrow> bool" where
  "is_skip_print (Print (FileNotFound p)) = True"
| "is_skip_print (Print (AlreadyMigrated p)) = True"
| "is_skip_print (Print (NoConsole p)) = True"
| "is_skip_print e = False"

fun is_migrated_print :: "event \<Rightarrow> bool" where
  "is_migrated_print (Print (Migrated p)) = True"
| "is_migrated_print e = False"

section \<open>The route label, in the words of the specification\<close>

text \<open>The first one or two path components of the text that follows the API root, joined
  by a colon: the first field of the text split at slashes, and the second when there is
  one and it is not empty. This is not code of the script; the claim about the API rule
  compares \<^verbatim>\<open>get_scope\<close> with it.\<close>

definition route_label :: "string \<Rightarrow> string" where
  "route_label r =
     (case split_on CHR ''/'' r of
        [] \<Rightarrow> []
      | [c1] \<Rightarrow> c1
      | c1 # c2 # _ \<Rightarrow> if c2 = [] then c1 else c1 @ '':'' @ c2)"

section \<open>The import line, in the words of the specification\<close>

text \<open>A line whose trimmed form begins with the import keyword and that is not a
  type-only import, that is, does not begin with \<^verbatim>\<open>import type\<close>. This is not code of the
  script, whose test is \<^const>\<open>is_import_line\<close>; the claim about the placement of the
  import compares the two.\<close>

definition spec_import_line :: "string \<Rightarrow> bool" where
  "spec_import_line line =
     (prefix ''import '' (strip line) \<and> \<not> prefix ''import type '' (strip line))"

section \<open>Call prefixes\<close>




section \<open>Files that a call leaves alone\<close>

text \<open>Two properties of the file at a path, read off the tests of lines 118, 127 and 132:
  a settled file is one that \<^verbatim>\<open>migrate_file\<close> skips (it is missing, or names the logger
  module, or has no console reference); a logged file is one that names the logger
  module. They are not code of the script; the lemmas about running it twice use them.\<close>

definition settled :: "(string \<rightharpoonup> string) \<Rightarrow> string \<Rightarrow> bool" where
  "settled fs x =
     (case fs x of
        None \<Rightarrow> True
      | Some stored \<Rightarrow> already_migrated (read_text stored) \<or> \<not> has_console (read_text stored))"

definition logged :: "(string \<rightharpoonup> string) \<Rightarrow> string \<Rightarrow> bool" where
  "logged fs x =
     (case fs x of
        None \<Rightarrow> False
      | Some stored \<Rightarrow> already_migrated (read_text stored))"

section \<open>Effects of one call\<close>

lemma files_print [simp]: "files (print m w) = files w"
  by (simp add: print_def)

lemma trace_print [simp]: "trace (print m w) = trace w @ [Print m]"
  by (simp add: print_def)

lemma files_write_file [simp]: "files (write_file p t w) = (files w)(p \<mapsto> t)"
  by (simp add: write_file_def)

lemma trace_write_file [simp]: "trace (write_file p t w) = trace w @ [Write p t]"
  by (simp add: write_file_def)

text \<open>The four ways through \<^verbatim>\<open>migrate_file\<close>.\<close>

lemma migrate_file_cases:
  obtains
    (missing) "files w (full_path_of base_dir p) = None"
      "migrate_file p base_dir w = (False, print (FileNotFound p) w)"
  | (already) stored content where "files w (full_path_of base_dir p) = Some stored"
      "content = read_text stored" "already_migrated content"
      "migrate_file p base_dir w = (False, print (AlreadyMigrated p) w)"
  | (no_console) stored content where "files w (full_path_of base_dir p) = Some stored"
      "content = read_text stored" "\<not> already_migrated content" "\<not> has_console content"
      "migrate_file p base_dir w = (False, print (NoConsole p) w)"
  | (migrate) stored content where "files w (full_path_of base_dir p) = Some stored"
      "content = read_text stored" "\<not> already_migrated content" "has_console content"
      "migrate_file p base_dir w =
         (True, print (Migrated p)
            (write_file (full_path_of base_dir p)
               (replace_console (insert_import content (import_statement (get_scope p))))
               (write_file (full_path_of base_dir p @ ''.bak'') content
                  (print (Migrating p) w))))"
proof (cases "files w (full_path_of base_dir p)")
  case None
  then show ?thesis using missing by (simp add: migrate_file_def)
next
  case (Some stored)
  then show ?thesis
    using already [of stored "read_text stored"] no_console [of stored "read_text stored"]
      migrate [of stored "read_text stored"]
    by (cases "already_migrated (read_text stored)"; cases "has_console (read_text stored)")
       (simp_all add: migrate_file_def Let_def)
qed

section \<open>The counters of the batch\<close>

lemma migrate_loop_counters:
  "migrate_loop base_dir ps (c, w) = (c', w') \<Longrightarrow>
     total c' = total c + int (length ps) \<and>
     migrated c' + skipped c' = migrated c + skipped c + int (length ps)"
proof (induction ps arbitrary: c w)
  case Nil
  then show ?case by simp
next
  case (Cons p ps)
  obtain ok w1 where m: "migrate_file p base_dir w = (ok, w1)"
    by (cases "migrate_file p base_dir w")
  show ?case
  proof (cases ok)
    case True
    with Cons.prems m
    have "migrate_loop base_dir ps
            (c\<lparr>total := total c + 1, migrated := migrated c + 1\<rparr>, w1) = (c', w')"
      by simp
    from Cons.IH [OF this] show ?thesis by simp
  next
    case False
    with Cons.prems m
    have "migrate_loop base_dir ps
            (c\<lparr>total := total c + 1, skipped := skipped c + 1\<rparr>, w1) = (c', w')"
      by simp
    from Cons.IH [OF this] show ?thesis by simp
  qed
qed

text \<open>The state after the first entries of a manifest is the state the loop over the
  whole manifest passes through.\<close>

lemma migrate_loop_append:
  "migrate_loop base_dir (xs @ ys) s = migrate_loop base_dir ys (migrate_loop base_dir xs s)"
proof (induction xs arbitrary: s)
  case Nil
  then show ?case by (cases s) simp
next
  case (Cons x xs)
  then show ?case by (cases s) (simp add: Let_def split: prod.splits)
qed

lemma migrate_file_counts:
  "migrate_file p base_dir w = (ok, w') \<Longrightarrow>
     \<exists>evs. trace w' = trace w @ evs \<and>
       length (filter is_skip_print evs) = (if ok then 0 else 1) \<and>
       length (filter is_migrated_print evs) = (if ok then 1 else 0)"
  by (rule migrate_file_cases [where w = w and base_dir = base_dir and p = p]) auto

lemma migrate_loop_counts:
  "migrate_loop base_dir ps (c, w) = (c', w') \<Longrightarrow>
     \<exists>evs. trace w' = trace w @ evs \<and>
       skipped c' = skipped c + int (length (filter is_skip_print evs)) \<and>
       migrated c' = migrated c + int (length (filter is_migrated_print evs))"
proof (induction ps arbitrary: c w)
  case Nil
  then show ?case by simp
next
  case (Cons p ps)
  obtain ok w1 where m: "migrate_file p base_dir w = (ok, w1)"
    by (cases "migrate_file p base_dir w")
  from migrate_file_counts [OF m] obtain e1 where
    e1: "trace w1 = trace w @ e1"
      "length (filter is_skip_print e1) = (if ok then 0 else 1)"
      "length (filter is_migrated_print e1) = (if ok then 1 else 0)"
    by blast
  define c2 where "c2 = (if ok then c\<lparr>total := total c + 1, migrated := migrated c + 1\<rparr>
                         else c\<lparr>total := total c + 1, skipped := skipped c + 1\<rparr>)"
  from Cons.prems m have "migrate_loop base_dir ps (c2, w1) = (c', w')"
    by (cases ok) (simp_all add: c2_def Let_def)
  from Cons.IH [OF this] obtain e2 where
    e2: "trace w' = trace w1 @ e2"
      "skipped c' = skipped c2 + int (length (filter is_skip_print e2))"
      "migrated c' = migrated c2 + int (length (filter is_migrated_print e2))"
    by blast
  have "trace w' = trace w @ (e1 @ e2)"
    using e1(1) e2(1) by simp
  moreover have "skipped c' = skipped c + int (length (filter is_skip_print (e1 @ e2)))"
    using e1(2) e2(2) by (simp add: c2_def)
  moreover have "migrated c' = migrated c + int (length (filter is_migrated_print (e1 @ e2)))"
    using e1(3) e2(3) by (simp add: c2_def)
  ultimately show ?case by blast
qed

text \<open>
  C8. Start the loop of \<^verbatim>\<open>main\<close> with the three counters at zero and an empty
  output. After the first \<open>n\<close> entries of any manifest \<open>ms\<close> (all of them when \<open>n\<close>
  is its length or more), \<open>migrated + skipped = total\<close>, \<open>total\<close> is the number of entries
  processed, \<open>skipped\<close> is the number of lines printed for the three skip reasons taken
  together, and \<open>migrated\<close> is the number of lines reporting a migrated file.
\<close>

theorem counters_after_every_iteration:
  "(case migrate_loop base_dir (take n ms)
           (\<lparr>total = 0, migrated = 0, skipped = 0\<rparr>, \<lparr>files = fs, trace = []\<rparr>) of
      (c, w') \<Rightarrow>
        migrated c + skipped c = total c \<and>
        total c = int (min n (length ms)) \<and>
        skipped c = int (length (filter is_skip_print (trace w'))) \<and>
        migrated c = int (length (filter is_migrated_print (trace w'))))"
proof -
  obtain c' w' where r: "migrate_loop base_dir (take n ms)
      (\<lparr>total = 0, migrated = 0, skipped = 0\<rparr>, \<lparr>files = fs, trace = []\<rparr>) = (c', w')"
    by (cases "migrate_loop base_dir (take n ms)
      (\<lparr>total = 0, migrated = 0, skipped = 0\<rparr>, \<lparr>files = fs, trace = []\<rparr>)")
  from migrate_loop_counters [OF r] migrate_loop_counts [OF r] show ?thesis
    by (auto simp add: r min.commute)
qed

section \<open>A missing file\<close>

text \<open>
  C7. When the file of an entry does not exist, \<^verbatim>\<open>migrate_file\<close> returns false, prints
  the warning and nothing else, and leaves every file as it was; the loop counts the
  entry as skipped and goes on with the entries after it, whatever they are.
\<close>

theorem missing_file_is_skipped:
  assumes "files w (full_path_of base_dir p) = None"
  shows "migrate_file p base_dir w = (False, print (FileNotFound p) w)
         \<and> files (snd (migrate_file p base_dir w)) = files w
         \<and> trace (snd (migrate_file p base_dir w)) = trace w @ [Print (FileNotFound p)]
         \<and> migrate_loop base_dir (p # rest) (c, w)
             = migrate_loop base_dir rest
                 (c\<lparr>total := total c + 1, skipped := skipped c + 1\<rparr>,
                  print (FileNotFound p) w)"
  using assms by (simp add: migrate_file_def Let_def)

theorem missing_file_is_skipped_witness:
  "files \<lparr>files = Map.empty, trace = []\<rparr> (full_path_of ''/repo'' ''src/a.ts'') = None
   \<and> fst (migrate_file ''src/a.ts'' ''/repo'' \<lparr>files = Map.empty, trace = []\<rparr>) = False
   \<and> trace (snd (migrate_file ''src/a.ts'' ''/repo'' \<lparr>files = Map.empty, trace = []\<rparr>))
       = [Print (FileNotFound ''src/a.ts'')]
   \<and> total (fst (migrate_loop ''/repo'' [''src/a.ts'', ''src/b.ts'']
         (\<lparr>total = 0, migrated = 0, skipped = 0\<rparr>, \<lparr>files = Map.empty, trace = []\<rparr>))) = 2"
proof -
  have h: "files \<lparr>files = Map.empty, trace = []\<rparr> (full_path_of ''/repo'' ''src/a.ts'') = None"
    by simp
  have h2: "files (print (FileNotFound ''src/a.ts'') \<lparr>files = Map.empty, trace = []\<rparr>)
              (full_path_of ''/repo'' ''src/b.ts'') = None"
    by simp
  show ?thesis
    using missing_file_is_skipped
            [OF h, of "[''src/b.ts'']" "\<lparr>total = 0, migrated = 0, skipped = 0\<rparr>"]
          missing_file_is_skipped [OF h2, of "[]"]
    by simp
qed

section \<open>The backup\<close>

text \<open>A text without a carriage return is read as it is stored.\<close>

lemma read_text_no_cr: "CHR 0x0D \<notin> set s \<Longrightarrow> read_text s = s"
  by (induction s rule: read_text.induct) auto

text \<open>When \<^verbatim>\<open>migrate_file\<close> migrates a file (it returns true), the file existed, and
  the call did exactly this, in this order: print the start line, write the text it
  read to the path with \<^verbatim>\<open>.bak\<close> appended, write the new text to the path itself, print
  the end line. The backup holds the text as it was read, which is the stored file when
  that has no carriage return.\<close>

lemma backup_before_overwrite:
  assumes "fst (migrate_file p base_dir w)"
  shows "\<exists>stored.
           files w (full_path_of base_dir p) = Some stored
         \<and> trace (snd (migrate_file p base_dir w)) = trace w @
             [Print (Migrating p),
              Write (full_path_of base_dir p @ ''.bak'') (read_text stored),
              Write (full_path_of base_dir p)
                (replace_console
                   (insert_import (read_text stored) (import_statement (get_scope p)))),
              Print (Migrated p)]
         \<and> files (snd (migrate_file p base_dir w)) (full_path_of base_dir p @ ''.bak'')
             = Some (read_text stored)
         \<and> (CHR 0x0D \<notin> set stored \<longrightarrow>
              files (snd (migrate_file p base_dir w)) (full_path_of base_dir p @ ''.bak'')
                = Some stored)"
  using assms
  by (rule_tac migrate_file_cases [where w = w and base_dir = base_dir and p = p])
     (auto simp: read_text_no_cr)

text \<open>
  C2. The backup is written before the file is overwritten, but it is written from the
  text that text mode delivered, not from the file. A file whose lines end in carriage
  return and line feed is migrated, and its backup ends the lines in a line feed alone:
  the backup differs from the file as it was before the migration.
\<close>

theorem crlf_backup_differs:
  "fst (migrate_file ''src/hooks/useTVL.ts'' ''/repo''
      \<lparr>files = [''/repo/src/hooks/useTVL.ts'' \<mapsto> ''console.log(1);'' @ [CHR 0x0D, CHR 0x0A]],
       trace = []\<rparr>)
   \<and> trace (snd (migrate_file ''src/hooks/useTVL.ts'' ''/repo''
      \<lparr>files = [''/repo/src/hooks/useTVL.ts'' \<mapsto> ''console.log(1);'' @ [CHR 0x0D, CHR 0x0A]],
       trace = []\<rparr>))
       = [Print (Migrating ''src/hooks/useTVL.ts''),
          Write ''/repo/src/hooks/useTVL.ts.bak'' ''console.log(1);\<newline>'',
          Write ''/repo/src/hooks/useTVL.ts''
            ''import { logger } from '@/lib/logger'\<newline>\<newline>logger.info(1);\<newline>'',
          Print (Migrated ''src/hooks/useTVL.ts'')]
   \<and> files (snd (migrate_file ''src/hooks/useTVL.ts'' ''/repo''
      \<lparr>files = [''/repo/src/hooks/useTVL.ts'' \<mapsto> ''console.log(1);'' @ [CHR 0x0D, CHR 0x0A]],
       trace = []\<rparr>)) ''/repo/src/hooks/useTVL.ts.bak''
       = Some ''console.log(1);\<newline>''
   \<and> ''console.log(1);\<newline>'' \<noteq> ''console.log(1);'' @ [CHR 0x0D, CHR 0x0A]
   \<and> length (''console.log(1);'' @ [CHR 0x0D, CHR 0x0A]) = 17
   \<and> length ''console.log(1);\<newline>'' = 16"
  by code_simp

section \<open>Scope precedence\<close>

text \<open>\<^verbatim>\<open>in\<close> on strings is the sublist relation; a field of a split text, and so the
  name of a path, is a piece of that text.\<close>

lemma str_in_sublist: "str_in sub s \<longleftrightarrow> sublist sub s"
  by (induction s) (auto simp: sublist_Cons_right)

lemma split_on_nonempty: "split_on d s \<noteq> []"
  by (induction s) (auto split: list.splits)

lemma split_on_sublist: "x \<in> set (split_on d s) \<Longrightarrow> sublist x s"
proof (induction s arbitrary: x)
  case Nil
  then show ?case by simp
next
  case (Cons c cs)
  show ?case
  proof (cases "c = d")
    case True
    with Cons show ?thesis by (auto simp: sublist_Cons_right)
  next
    case False
    obtain l ls where sp: "split_on d cs = l # ls"
      using split_on_nonempty [of d cs] by (cases "split_on d cs") auto
    with False Cons.prems have "x = c # l \<or> x \<in> set ls" by simp
    then show ?thesis
    proof
      assume "x = c # l"
      have "prefix l cs"
        using sp
      proof (induction cs arbitrary: l ls)
        case Nil
        then show ?case by simp
      next
        case (Cons a as)
        then show ?case
          by (cases "split_on d as") (auto split: if_splits)
      qed
      then show ?thesis using \<open>x = c # l\<close> by (simp add: sublist_Cons_right prefix_imp_sublist)
    next
      assume "x \<in> set ls"
      then have "sublist x cs" using Cons.IH sp by simp
      then show ?thesis by (simp add: sublist_Cons_right)
    qed
  qed
qed

lemma path_name_sublist: "sublist (path_name p) p"
proof -
  let ?xs = "filter (\<lambda>x. x \<noteq> [] \<and> x \<noteq> ''.'') (split_on CHR ''/'' p)"
  show ?thesis
  proof (cases ?xs)
    case Nil
    then show ?thesis by (simp add: path_name_def)
  next
    case (Cons a as)
    then have "path_name p = last ?xs" by (simp add: path_name_def)
    moreover have "last ?xs \<in> set ?xs" using Cons by (metis last_in_set list.distinct(1))
    ultimately have "path_name p \<in> set (split_on CHR ''/'' p)" by auto
    then show ?thesis by (rule split_on_sublist)
  qed
qed

lemma basename_in_path: "str_in sub (path_name p) \<Longrightarrow> str_in sub p"
  using path_name_sublist [of p] by (auto simp: str_in_sublist intro: sublist_order.order_trans)

text \<open>
  C5 (amended). A path that contains \<^verbatim>\<open>services/\<close> and whose base name contains
  \<^verbatim>\<open>ValidationService\<close> gets the scope \<^verbatim>\<open>validation:\<close> followed by its stem, provided it
  does not contain \<^verbatim>\<open>api/\<close>; with or without \<^verbatim>\<open>api/\<close>, its scope never starts with
  \<^verbatim>\<open>service:\<close>. The first branch of \<^verbatim>\<open>get_scope\<close> tests for \<^verbatim>\<open>api/\<close>, before the
  validation branch.
\<close>

theorem validation_before_service:
  assumes "str_in ''services/'' p" and "str_in ''ValidationService'' (path_name p)"
  shows "(\<not> str_in ''api/'' p \<longrightarrow> get_scope p = Some (''validation:'' @ stem p))
         \<and> (\<forall>s. get_scope p = Some s \<longrightarrow> \<not> prefix ''service:'' s)"
  using assms(1) basename_in_path [OF assms(2)]
  by (auto simp: get_scope_def split: option.splits)

theorem validation_before_service_witness:
  "str_in ''services/'' ''src/features/rates/services/RateValidationService.ts''
   \<and> str_in ''ValidationService'' (path_name ''src/features/rates/services/RateValidationService.ts'')
   \<and> \<not> str_in ''api/'' ''src/features/rates/services/RateValidationService.ts''
   \<and> get_scope ''src/features/rates/services/RateValidationService.ts''
       = Some ''validation:RateValidationService''"
proof -
  have a: "str_in ''services/'' ''src/features/rates/services/RateValidationService.ts''"
    by code_simp
  have b: "str_in ''ValidationService'' (path_name ''src/features/rates/services/RateValidationService.ts'')"
    by code_simp
  have c: "\<not> str_in ''api/'' ''src/features/rates/services/RateValidationService.ts''"
    by code_simp
  have d: "stem ''src/features/rates/services/RateValidationService.ts'' = ''RateValidationService''"
    by code_simp
  show ?thesis
    using a b c d validation_before_service [OF a b] by simp
qed

text \<open>The claim as stated fails on a validation service below an API route: the path
  satisfies both predicates and is classified \<^verbatim>\<open>api:\<close>.\<close>

theorem validation_precedence_counterexample:
  "str_in ''services/'' ''src/app/api/services/RateValidationService.ts''
   \<and> str_in ''ValidationService'' (path_name ''src/app/api/services/RateValidationService.ts'')
   \<and> get_scope ''src/app/api/services/RateValidationService.ts''
       = Some ''api:services:RateValidationService.ts''
   \<and> \<not> prefix ''validation:'' ''api:services:RateValidationService.ts''"
  by code_simp

section \<open>The applicability check\<close>

text \<open>A file whose text does not name the logger module and has none of the five
  references \<^verbatim>\<open>console.<level>\<close> (with or without a parenthesis behind) is skipped: nothing
  is written.\<close>

lemma no_console_reference_is_skipped:
  assumes "files w (full_path_of base_dir p) = Some stored"
    and "\<not> already_migrated (read_text stored)" and "\<not> has_console (read_text stored)"
  shows "migrate_file p base_dir w = (False, print (NoConsole p) w)"
  using assms by (simp add: migrate_file_def)

text \<open>
  C1. The check of line 132 looks for \<^verbatim>\<open>console.<level>\<close> without the parenthesis that the
  five substitutions of lines 167-171 require. A file that passes \<^verbatim>\<open>console.error\<close> as a
  value has no occurrence of any \<^verbatim>\<open>console.<level>(\<close>, and is migrated all the same: a
  backup is written, the import is put in front, no call is rewritten, and the entry is
  reported migrated.
\<close>

theorem console_reference_without_call_is_migrated:
  "occurrences ''console.log('' ''p.catch(console.error)\<newline>'' = 0
   \<and> occurrences ''console.error('' ''p.catch(console.error)\<newline>'' = 0
   \<and> occurrences ''console.warn('' ''p.catch(console.error)\<newline>'' = 0
   \<and> occurrences ''console.info('' ''p.catch(console.error)\<newline>'' = 0
   \<and> occurrences ''console.debug('' ''p.catch(console.error)\<newline>'' = 0
   \<and> \<not> already_migrated ''p.catch(console.error)\<newline>''
   \<and> fst (migrate_file ''src/hooks/useTVL.ts'' ''/repo''
            \<lparr>files = [''/repo/src/hooks/useTVL.ts'' \<mapsto> ''p.catch(console.error)\<newline>''],
             trace = []\<rparr>)
   \<and> trace (snd (migrate_file ''src/hooks/useTVL.ts'' ''/repo''
            \<lparr>files = [''/repo/src/hooks/useTVL.ts'' \<mapsto> ''p.catch(console.error)\<newline>''],
             trace = []\<rparr>))
       = [Print (Migrating ''src/hooks/useTVL.ts''),
          Write ''/repo/src/hooks/useTVL.ts.bak'' ''p.catch(console.error)\<newline>'',
          Write ''/repo/src/hooks/useTVL.ts''
            ''import { logger } from '@/lib/logger'\<newline>\<newline>p.catch(console.error)\<newline>'',
          Print (Migrated ''src/hooks/useTVL.ts'')]"
  by code_simp

section \<open>The substitution loses the level\<close>

text \<open>
  C10. Two files that differ only in \<^verbatim>\<open>console.log(\<close> against \<^verbatim>\<open>console.info(\<close> at one call
  are both migrated, and to the same text: the level of the call cannot be told from the
  migrated file.
\<close>

theorem log_and_info_collapse:
  "''console.log(1)'' \<noteq> ''console.info(1)''
   \<and> fst (migrate_file ''src/hooks/useTVL.ts'' ''/repo''
            \<lparr>files = [''/repo/src/hooks/useTVL.ts'' \<mapsto> ''console.log(1)''], trace = []\<rparr>)
   \<and> fst (migrate_file ''src/hooks/useTVL.ts'' ''/repo''
            \<lparr>files = [''/repo/src/hooks/useTVL.ts'' \<mapsto> ''console.info(1)''], trace = []\<rparr>)
   \<and> files (snd (migrate_file ''src/hooks/useTVL.ts'' ''/repo''
            \<lparr>files = [''/repo/src/hooks/useTVL.ts'' \<mapsto> ''console.log(1)''], trace = []\<rparr>))
        ''/repo/src/hooks/useTVL.ts''
      = Some ''import { logger } from '@/lib/logger'\<newline>\<newline>logger.info(1)''
   \<and> files (snd (migrate_file ''src/hooks/useTVL.ts'' ''/repo''
            \<lparr>files = [''/repo/src/hooks/useTVL.ts'' \<mapsto> ''console.info(1)''], trace = []\<rparr>))
        ''/repo/src/hooks/useTVL.ts''
      = Some ''import { logger } from '@/lib/logger'\<newline>\<newline>logger.info(1)''"
  by code_simp

section \<open>The API rule\<close>

text \<open>Fields of a split text, by the scans that the pattern makes.\<close>

lemma split_on_takeWhile:
  "split_on d r = takeWhile (\<lambda>c. c \<noteq> d) r #
     (case dropWhile (\<lambda>c. c \<noteq> d) r of [] \<Rightarrow> [] | _ # r2 \<Rightarrow> split_on d r2)"
  by (induction r) (auto split: list.splits)

lemma slash_to_colon_takeWhile:
  "slash_to_colon (takeWhile (\<lambda>c. c \<noteq> CHR ''/'') r) = takeWhile (\<lambda>c. c \<noteq> CHR ''/'') r"
  unfolding slash_to_colon_def
  by (rule map_idI) (auto dest: set_takeWhileD)

lemma slash_to_colon_append:
  "slash_to_colon (a @ b) = slash_to_colon a @ slash_to_colon b"
  by (simp add: slash_to_colon_def)

lemma slash_to_colon_Cons:
  "slash_to_colon (c # cs) = (if c = CHR ''/'' then CHR '':'' else c) # slash_to_colon cs"
  by (simp add: slash_to_colon_def)

lemma takeWhile_empty_iff: "takeWhile (\<lambda>c. c \<noteq> d) r = [] \<longleftrightarrow> r = [] \<or> hd r = d"
  by (cases r) auto

lemma api_match_here_label:
  assumes "r \<noteq> []" and "hd r \<noteq> CHR ''/''"
  shows "\<exists>g. api_match_here (''src/app/api/'' @ r) = Some g \<and> slash_to_colon g = route_label r"
proof -
  let ?c1 = "takeWhile (\<lambda>c. c \<noteq> CHR ''/'') r"
  have c1: "?c1 \<noteq> []" using assms by (simp add: takeWhile_empty_iff)
  show ?thesis
  proof (cases "dropWhile (\<lambda>c. c \<noteq> CHR ''/'') r")
    case Nil
    have sp: "split_on CHR ''/'' r = [?c1]"
      using Nil by (simp add: split_on_takeWhile [of "CHR ''/''" r] del: dropWhile_eq_Nil_conv)
    have m: "api_match_here (''src/app/api/'' @ r) = Some ?c1"
      using c1 Nil by (simp add: api_match_here_def Let_def del: dropWhile_eq_Nil_conv)
    show ?thesis
      using m sp by (simp add: route_label_def slash_to_colon_takeWhile)
  next
    case (Cons x r2)
    let ?c2 = "takeWhile (\<lambda>c. c \<noteq> CHR ''/'') r2"
    have sp: "split_on CHR ''/'' r = ?c1 # split_on CHR ''/'' r2"
      using Cons by (simp add: split_on_takeWhile [of "CHR ''/''" r])
    obtain rest where sp2: "split_on CHR ''/'' r2 = ?c2 # rest"
      using split_on_takeWhile [of "CHR ''/''" r2] by blast
    have lab: "route_label r = (if ?c2 = [] then ?c1 else ?c1 @ '':'' @ ?c2)"
      by (simp add: route_label_def sp sp2)
    have m: "api_match_here (''src/app/api/'' @ r)
               = Some (if ?c2 = [] then ?c1 else ?c1 @ ''/'' @ ?c2)"
      using c1 Cons by (simp add: api_match_here_def Let_def)
    have "slash_to_colon (if ?c2 = [] then ?c1 else ?c1 @ ''/'' @ ?c2)
            = (if ?c2 = [] then ?c1 else ?c1 @ '':'' @ ?c2)"
      by (simp add: slash_to_colon_append slash_to_colon_Cons slash_to_colon_takeWhile)
    with m lab show ?thesis by simp
  qed
qed

lemma api_match_here_None:
  assumes "\<forall>r. s = ''src/app/api/'' @ r \<longrightarrow> r = [] \<or> hd r = CHR ''/''"
  shows "api_match_here s = None"
proof (cases "prefix ''src/app/api/'' s")
  case False
  then show ?thesis by (simp add: api_match_here_def)
next
  case True
  then obtain r where r: "s = ''src/app/api/'' @ r" by (auto simp: prefix_def)
  with assms have "r = [] \<or> hd r = CHR ''/''" by blast
  then have "takeWhile (\<lambda>c. c \<noteq> CHR ''/'') r = []" by (simp add: takeWhile_empty_iff)
  then show ?thesis using r by (simp add: api_match_here_def Let_def)
qed

lemma api_search_skip:
  assumes "\<forall>pre' r'. pre @ s = pre' @ ''src/app/api/'' @ r' \<and> length pre' < length pre
             \<longrightarrow> r' = [] \<or> hd r' = CHR ''/''"
  shows "api_search (pre @ s) = api_search s"
  using assms
proof (induction pre)
  case Nil
  then show ?case by simp
next
  case (Cons c pre)
  have here: "api_match_here (c # pre @ s) = None"
  proof (rule api_match_here_None, intro allI impI)
    fix r assume "c # pre @ s = ''src/app/api/'' @ r"
    then have "(c # pre) @ s = [] @ ''src/app/api/'' @ r \<and> length ([]::string) < length (c # pre)"
      by simp
    with Cons.prems show "r = [] \<or> hd r = CHR ''/''" by blast
  qed
  have "\<forall>pre' r'. pre @ s = pre' @ ''src/app/api/'' @ r' \<and> length pre' < length pre
             \<longrightarrow> r' = [] \<or> hd r' = CHR ''/''"
  proof (intro allI impI)
    fix pre' r' assume a: "pre @ s = pre' @ ''src/app/api/'' @ r' \<and> length pre' < length pre"
    then have "(c # pre) @ s = (c # pre') @ ''src/app/api/'' @ r' \<and> length (c # pre') < length (c # pre)"
      by simp
    with Cons.prems show "r' = [] \<or> hd r' = CHR ''/''" by blast
  qed
  from Cons.IH [OF this] here show ?case by simp
qed

lemma api_search_None:
  assumes "\<forall>pre r. p = pre @ ''src/app/api/'' @ r \<longrightarrow> r = [] \<or> hd r = CHR ''/''"
  shows "api_search p = None"
proof -
  have "api_search (p @ []) = api_search []"
    by (rule api_search_skip) (use assms in auto)
  then show ?thesis by simp
qed

lemma api_search_first:
  assumes "r \<noteq> []" and "hd r \<noteq> CHR ''/''"
  shows "\<exists>g. api_search (''src/app/api/'' @ r) = Some g \<and> slash_to_colon g = route_label r"
proof -
  from api_match_here_label [OF assms] obtain g where
    g: "api_match_here (''src/app/api/'' @ r) = Some g" "slash_to_colon g = route_label r"
    by blast
  have "api_search (''src/app/api/'' @ r) = Some g"
    using g(1) by simp
  with g(2) show ?thesis by blast
qed

text \<open>
  C9. Let the path contain \<^verbatim>\<open>api/\<close>. If \<^verbatim>\<open>src/app/api/\<close> occurs in it followed by a
  character other than a slash, then at the leftmost such occurrence, with \<open>r\<close> the text
  after it, the scope is \<^verbatim>\<open>api:\<close> followed by the first one or two components of \<open>r\<close>
  joined by a colon. If no occurrence of \<^verbatim>\<open>src/app/api/\<close> is followed by such a character
  (none at all, or only at the end or before a slash), the scope is \<^verbatim>\<open>api:unknown\<close>.
\<close>

theorem api_scope:
  assumes "str_in ''api/'' p"
  shows "(\<forall>pre r. p = pre @ ''src/app/api/'' @ r \<and> r \<noteq> [] \<and> hd r \<noteq> CHR ''/''
            \<and> (\<forall>pre' r'. p = pre' @ ''src/app/api/'' @ r' \<and> length pre' < length pre
                  \<longrightarrow> r' = [] \<or> hd r' = CHR ''/'')
          \<longrightarrow> get_scope p = Some (''api:'' @ route_label r))
       \<and> ((\<forall>pre r. p = pre @ ''src/app/api/'' @ r \<longrightarrow> r = [] \<or> hd r = CHR ''/'')
          \<longrightarrow> get_scope p = Some ''api:unknown'')"
proof (intro conjI allI impI)
  fix pre r
  assume a: "p = pre @ ''src/app/api/'' @ r \<and> r \<noteq> [] \<and> hd r \<noteq> CHR ''/''
            \<and> (\<forall>pre' r'. p = pre' @ ''src/app/api/'' @ r' \<and> length pre' < length pre
                  \<longrightarrow> r' = [] \<or> hd r' = CHR ''/'')"
  then have "api_search (pre @ ''src/app/api/'' @ r) = api_search (''src/app/api/'' @ r)"
    by (intro api_search_skip) blast
  moreover from a api_search_first [of r] obtain g where
    "api_search (''src/app/api/'' @ r) = Some g" "slash_to_colon g = route_label r"
    by blast
  ultimately show "get_scope p = Some (''api:'' @ route_label r)"
    using assms a by (simp add: get_scope_def)
next
  assume "\<forall>pre r. p = pre @ ''src/app/api/'' @ r \<longrightarrow> r = [] \<or> hd r = CHR ''/''"
  then have "api_search p = None" by (rule api_search_None)
  then show "get_scope p = Some ''api:unknown''"
    using assms by (simp add: get_scope_def)
qed

theorem api_scope_witness:
  "str_in ''api/'' ''src/app/api/portfolio/update-prices/route.ts''
   \<and> get_scope ''src/app/api/portfolio/update-prices/route.ts''
       = Some ''api:portfolio:update-prices''
   \<and> str_in ''api/'' ''src/lib/api/client.ts''
   \<and> get_scope ''src/lib/api/client.ts'' = Some ''api:unknown''"
proof -
  have a1: "str_in ''api/'' ''src/app/api/portfolio/update-prices/route.ts''"
    by code_simp
  have a2: "str_in ''api/'' ''src/lib/api/client.ts''"
    by code_simp
  have l: "route_label ''portfolio/update-prices/route.ts'' = ''portfolio:update-prices''"
    by code_simp
  have h1: "''src/app/api/portfolio/update-prices/route.ts''
              = [] @ ''src/app/api/'' @ ''portfolio/update-prices/route.ts''
            \<and> ''portfolio/update-prices/route.ts'' \<noteq> []
            \<and> hd ''portfolio/update-prices/route.ts'' \<noteq> CHR ''/''
            \<and> (\<forall>pre' r'. ''src/app/api/portfolio/update-prices/route.ts''
                    = pre' @ ''src/app/api/'' @ r' \<and> length pre' < length ([]::string)
                  \<longrightarrow> r' = [] \<or> hd r' = CHR ''/'')"
    by simp
  have n: "\<not> str_in ''src/app/api/'' ''src/lib/api/client.ts''"
    by code_simp
  have h2: "\<forall>pre r. ''src/lib/api/client.ts'' = pre @ ''src/app/api/'' @ r
              \<longrightarrow> r = [] \<or> hd r = CHR ''/''"
  proof (intro allI impI)
    fix pre r assume "''src/lib/api/client.ts'' = pre @ ''src/app/api/'' @ r"
    then have "sublist ''src/app/api/'' ''src/lib/api/client.ts''"
      unfolding sublist_def by metis
    with n show "r = [] \<or> hd r = CHR ''/''" by (simp add: str_in_sublist)
  qed
  from api_scope [OF a1] h1
  have g1: "get_scope ''src/app/api/portfolio/update-prices/route.ts''
              = Some (''api:'' @ route_label ''portfolio/update-prices/route.ts'')"
    by blast
  from api_scope [OF a2] h2
  have g2: "get_scope ''src/lib/api/client.ts'' = Some ''api:unknown''"
    by blast
  show ?thesis using a1 a2 g1 g2 l by simp
qed

section \<open>Where the import goes\<close>

text \<open>The index the loop ends with.\<close>

lemma last_import_idx_snoc:
  "last_import_idx (xs @ [x]) = (if is_import_line x then int (length xs) else last_import_idx xs)"
  by (simp add: last_import_idx_def enumerate_append_eq)

lemma last_import_idx_none:
  "(\<forall>l\<in>set ls. \<not> is_import_line l) \<Longrightarrow> last_import_idx ls = - 1"
proof (induction ls rule: rev_induct)
  case Nil
  then show ?case by (simp add: last_import_idx_def)
next
  case (snoc x xs)
  then show ?case by (simp add: last_import_idx_snoc)
qed

lemma last_import_idx_last:
  assumes "k < length ls" and "is_import_line (ls ! k)"
    and "\<forall>j. k < j \<and> j < length ls \<longrightarrow> \<not> is_import_line (ls ! j)"
  shows "last_import_idx ls = int k"
  using assms
proof (induction ls rule: rev_induct)
  case Nil
  then show ?case by simp
next
  case (snoc x xs)
  show ?case
  proof (cases "k = length xs")
    case True
    with snoc.prems(2) show ?thesis by (simp add: last_import_idx_snoc)
  next
    case False
    with snoc.prems(1) have k: "k < length xs" by simp
    have nx: "\<not> is_import_line x"
      using snoc.prems(3) k by (auto dest: spec [where x = "length xs"])
    have "is_import_line (xs ! k)"
      using snoc.prems(2) k by (simp add: nth_append)
    moreover have "\<forall>j. k < j \<and> j < length xs \<longrightarrow> \<not> is_import_line (xs ! j)"
    proof (intro allI impI)
      fix j assume j: "k < j \<and> j < length xs"
      then have "\<not> is_import_line ((xs @ [x]) ! j)" using snoc.prems(3) by simp
      with j show "\<not> is_import_line (xs ! j)" by (simp add: nth_append)
    qed
    ultimately have "last_import_idx xs = int k" using snoc.IH k by blast
    with nx show ?thesis by (simp add: last_import_idx_snoc)
  qed
qed

lemma split_on_append: "split_on d (a @ d # b) = split_on d a @ split_on d b"
proof (induction a)
  case Nil
  then show ?case by simp
next
  case (Cons c a)
  then show ?case
    using split_on_nonempty [of d a] by (cases "split_on d a") auto
qed

lemma split_on_join:
  "ls \<noteq> [] \<Longrightarrow> split_on d (join [d] ls) = concat (map (split_on d) ls)"
proof (induction "[d]" ls rule: join.induct)
  case 1
  then show ?case by simp
next
  case (2 l)
  then show ?case by simp
next
  case (3 l m ls)
  then show ?case by (simp add: split_on_append)
qed


lemma split_on_line: "x \<in> set (split_on d s) \<Longrightarrow> d \<notin> set x"
proof (induction s arbitrary: x)
  case Nil
  then show ?case by simp
next
  case (Cons c cs)
  obtain l ls where sp: "split_on d cs = l # ls"
    using split_on_nonempty [of d cs] by (cases "split_on d cs") auto
  with Cons show ?case by (cases "c = d") auto
qed

lemma split_on_no_sep: "d \<notin> set x \<Longrightarrow> split_on d x = [x]"
  by (induction x) auto

lemma concat_split_lines:
  "(\<forall>x\<in>set xs. d \<notin> set x) \<Longrightarrow> concat (map (split_on d) xs) = xs"
  by (induction xs) (auto simp: split_on_no_sep)

text \<open>
  What lines 152-164 do with the import, for every text. Let the lines of a text be its
  fields between line feeds, and let an import line be a line that passes the test of
  line 155: its trimmed form begins with \<^verbatim>\<open>import \<close> and the line nowhere contains the
  letters \<^verbatim>\<open>type\<close>. If the text has such a line, the snippet is put in as one list
  element right behind the last of them: the lines up to and including it, then the lines
  of the snippet, then the remaining lines, all unchanged and in their order. If it has
  none, the result is the snippet, a line feed, and the whole text.
\<close>

lemma import_placement:
  assumes "ls = split_on CHR ''\<newline>'' content"
  shows "(\<forall>k. k < length ls \<and> is_import_line (ls ! k)
              \<and> (\<forall>j. k < j \<and> j < length ls \<longrightarrow> \<not> is_import_line (ls ! j))
            \<longrightarrow> insert_import content stmt
                  = join ''\<newline>'' (take (Suc k) ls @ [stmt] @ drop (Suc k) ls)
                \<and> split_on CHR ''\<newline>'' (insert_import content stmt)
                  = take (Suc k) ls @ split_on CHR ''\<newline>'' stmt @ drop (Suc k) ls)
       \<and> ((\<forall>l\<in>set ls. \<not> is_import_line l)
            \<longrightarrow> insert_import content stmt = stmt @ ''\<newline>'' @ content
                \<and> split_on CHR ''\<newline>'' (insert_import content stmt)
                  = split_on CHR ''\<newline>'' stmt @ ls)"
proof (intro conjI allI impI)
  fix k
  assume a: "k < length ls \<and> is_import_line (ls ! k)
              \<and> (\<forall>j. k < j \<and> j < length ls \<longrightarrow> \<not> is_import_line (ls ! j))"
  then have idx: "last_import_idx ls = int k"
    by (intro last_import_idx_last) auto
  then show eq: "insert_import content stmt
          = join ''\<newline>'' (take (Suc k) ls @ [stmt] @ drop (Suc k) ls)"
    using assms by (simp add: insert_import_def Let_def nat_add_distrib)
  have lines: "\<forall>x\<in>set ls. CHR ''\<newline>'' \<notin> set x"
    using assms split_on_line by blast
  have t: "concat (map (split_on CHR ''\<newline>'') (take (Suc k) ls)) = take (Suc k) ls"
    by (rule concat_split_lines) (use lines in \<open>auto dest: in_set_takeD\<close>)
  have d: "concat (map (split_on CHR ''\<newline>'') (drop (Suc k) ls)) = drop (Suc k) ls"
    by (rule concat_split_lines) (use lines in \<open>auto dest: in_set_dropD\<close>)
  have "split_on CHR ''\<newline>'' (join ''\<newline>'' (take (Suc k) ls @ [stmt] @ drop (Suc k) ls))
          = concat (map (split_on CHR ''\<newline>'') (take (Suc k) ls @ [stmt] @ drop (Suc k) ls))"
    by (rule split_on_join) simp
  with eq t d show "split_on CHR ''\<newline>'' (insert_import content stmt)
          = take (Suc k) ls @ split_on CHR ''\<newline>'' stmt @ drop (Suc k) ls"
    by simp
next
  assume n: "\<forall>l\<in>set ls. \<not> is_import_line l"
  then have "last_import_idx ls = - 1" by (rule last_import_idx_none)
  then show eq: "insert_import content stmt = stmt @ ''\<newline>'' @ content"
    using assms by (simp add: insert_import_def Let_def)
  show "split_on CHR ''\<newline>'' (insert_import content stmt) = split_on CHR ''\<newline>'' stmt @ ls"
    using eq assms by (simp add: split_on_append)
qed

text \<open>
  C4. The test of line 155 drops every line that contains the letters \<^verbatim>\<open>type\<close>
  anywhere, not only the type-only imports it is meant for. A file whose one import
  reads from a module named \<^verbatim>\<open>./types\<close> has a non-type-only import line, the code
  counts no import line at all, takes the branch for a file without imports, and the
  migrated file has the snippet at the top, in front of the import, instead of behind it.
\<close>

theorem import_from_types_module_is_not_counted:
  "spec_import_line ''import { Foo } from './types';''
   \<and> \<not> is_import_line ''import { Foo } from './types';''
   \<and> read_text ''import { Foo } from './types';\<newline>console.log(1);''
       = ''import { Foo } from './types';\<newline>console.log(1);''
   \<and> last_import_idx (split_on CHR ''\<newline>'' ''import { Foo } from './types';\<newline>console.log(1);'')
       = - 1
   \<and> split_on CHR ''\<newline>'' ''import { Foo } from './types';\<newline>console.log(1);''
       = [''import { Foo } from './types';'', ''console.log(1);'']
   \<and> insert_import ''import { Foo } from './types';\<newline>console.log(1);''
         ''import { logger } from '@/lib/logger'\<newline>''
       = ''import { logger } from '@/lib/logger'\<newline>\<newline>import { Foo } from './types';\<newline>console.log(1);''
   \<and> insert_import ''import { Foo } from './types';\<newline>console.log(1);''
         ''import { logger } from '@/lib/logger'\<newline>''
       \<noteq> join ''\<newline>'' [''import { Foo } from './types';'',
                          ''import { logger } from '@/lib/logger'\<newline>'',
                          ''console.log(1);'']
   \<and> fst (migrate_file ''src/hooks/useTVL.ts'' ''/repo''
            \<lparr>files = [''/repo/src/hooks/useTVL.ts''
                        \<mapsto> ''import { Foo } from './types';\<newline>console.log(1);''],
             trace = []\<rparr>)
   \<and> files (snd (migrate_file ''src/hooks/useTVL.ts'' ''/repo''
            \<lparr>files = [''/repo/src/hooks/useTVL.ts''
                        \<mapsto> ''import { Foo } from './types';\<newline>console.log(1);''],
             trace = []\<rparr>)) ''/repo/src/hooks/useTVL.ts''
       = Some ''import { logger } from '@/lib/logger'\<newline>\<newline>import { Foo } from './types';\<newline>logger.info(1);''"
  by code_simp

section \<open>Counting call prefixes\<close>
























text \<open>A pattern within one line is counted line by line, so the inserted import adds
  the occurrences in the snippet; reading in text mode changes no count.\<close>

lemma prefix_before_sep:
  "d \<notin> set pat \<Longrightarrow> prefix pat (a @ d # b) \<longleftrightarrow> prefix pat a"
proof (induction a arbitrary: pat)
  case Nil
  then show ?case by (cases pat) auto
next
  case (Cons c a)
  then show ?case by (cases pat) auto
qed




lemma prefix_read_text:
  "CHR 0x0D \<notin> set pat \<Longrightarrow> CHR 0x0A \<notin> set pat \<Longrightarrow>
   prefix pat (read_text s) \<longleftrightarrow> prefix pat s"
proof (induction s arbitrary: pat rule: read_text.induct)
  case 1
  then show ?case by simp
next
  case (2 c)
  then show ?case by (cases pat) auto
next
  case (3 c d cs)
  then show ?case by (cases pat) auto
qed












section \<open>Running twice\<close>

text \<open>A substitution leaves a quoted module name in place: no pattern has a quote, and
  none fits between the quotes.\<close>

lemma replace_all_copy:
  assumes "d \<notin> set q"
  shows "\<not> sublist q x \<Longrightarrow> replace_all q r (x @ d # v) = x @ d # replace_all q r v"
proof (induction x)
  case Nil
  have "\<not> prefix q (d # v) \<or> q = []" using assms by (cases q) auto
  then show ?case by auto
next
  case (Cons c x)
  have "\<not> prefix q (c # x)"
    using Cons.prems by (auto dest: prefix_imp_sublist)
  then have np: "\<not> prefix q (c # x @ d # v)"
    using prefix_before_sep [OF assms, of "c # x" v] by simp
  have "\<not> sublist q x" using Cons.prems by (simp add: sublist_Cons_right)
  with Cons.IH np show ?case by simp
qed

lemma replace_all_keeps_quoted:
  "d \<notin> set q \<Longrightarrow> \<not> sublist q m \<Longrightarrow> sublist (d # m @ [d]) t \<Longrightarrow>
   sublist (d # m @ [d]) (replace_all q r t)"
proof (induction q r t rule: replace_all.induct)
  case (1 pat rep)
  then show ?case by simp
next
  case (2 pat rep c cs)
  show ?case
  proof (cases "pat \<noteq> [] \<and> prefix pat (c # cs)")
    case True
    then obtain rest where t: "c # cs = pat @ rest" by (auto simp: prefix_def)
    have len: "length pat - 1 \<le> length cs" using t True
      by (metis One_nat_def length_Cons length_append diff_Suc_1 le_add1 diff_le_mono)
    have rest: "drop (length pat - 1) cs = rest"
    proof -
      have "drop (length pat) (c # cs) = rest" using t by simp
      moreover have "drop (length pat) (c # cs) = drop (length pat - 1) cs"
        using True by (cases pat) auto
      ultimately show ?thesis by simp
    qed
    have "sublist (d # m @ [d]) (pat @ rest)" using "2.prems"(3) t by simp
    then have "sublist (d # m @ [d]) rest"
    proof (rule_tac ccontr)
      assume a: "sublist (d # m @ [d]) (pat @ rest)" and n: "\<not> sublist (d # m @ [d]) rest"
      from a obtain u v where uv: "pat @ rest = u @ (d # m @ [d]) @ v"
        by (auto simp: sublist_def)
      show False
      proof (cases "length pat \<le> length u")
        case True
        then obtain u' where "u = pat @ u'"
          using uv by (metis append_eq_append_conv_if append_take_drop_id)
        with uv have "rest = u' @ (d # m @ [d]) @ v" by simp
        with n show False by (auto simp: sublist_def)
      next
        case False
        then have "length u < length pat" by simp
        then have "pat ! length u = (pat @ rest) ! length u" by (simp add: nth_append)
        also have "\<dots> = d" unfolding uv by (simp add: nth_append)
        finally have "d \<in> set pat" using \<open>length u < length pat\<close>
          by (metis nth_mem)
        with "2.prems"(1) show False by simp
      qed
    qed
    with "2.IH"(1) [OF True "2.prems"(1,2)] rest
    have "sublist (d # m @ [d]) (replace_all pat rep rest)" by simp
    then have "sublist (d # m @ [d]) (rep @ replace_all pat rep rest)"
      by (auto simp: sublist_def) (metis append.assoc)
    with True rest show ?thesis by simp
  next
    case False
    then have eq: "replace_all pat rep (c # cs) = c # replace_all pat rep cs" by auto
    from "2.prems"(3) consider "prefix (d # m @ [d]) (c # cs)" | "sublist (d # m @ [d]) cs"
      by (auto simp: sublist_Cons_right)
    then show ?thesis
    proof cases
      case 1
      then obtain v where "c # cs = d # m @ d # v" by (auto simp: prefix_def)
      then have c: "c = d" and cs: "cs = m @ d # v" by simp_all
      have "replace_all pat rep cs = m @ d # replace_all pat rep v"
        unfolding cs using "2.prems"(1,2) by (rule replace_all_copy)
      then have "replace_all pat rep (c # cs) = (d # m @ [d]) @ replace_all pat rep v"
        using eq c by simp
      then show ?thesis by (simp add: sublist_def) (metis append_Nil)
    next
      case 2
      with "2.IH"(2) [OF False "2.prems"(1,2)]
      have "sublist (d # m @ [d]) (replace_all pat rep cs)" by simp
      then show ?thesis unfolding eq by (simp add: sublist_Cons_right)
    qed
  qed
qed

text \<open>The text that a migration writes names the logger module, also when it is read
  again in text mode.\<close>

lemma sublist_in_front: "sublist x a \<Longrightarrow> sublist x (a @ b)"
  by (auto simp: sublist_def) (metis append.assoc)

lemma sublist_behind: "sublist x b \<Longrightarrow> sublist x (a @ b)"
  by (auto simp: sublist_def) (metis append.assoc)

lemma import_statement_names_logger:
  "sublist (CHR 0x27 # ''@/lib/logger'' @ [CHR 0x27]) (import_statement scope)"
proof -
  let ?L = "CHR 0x27 # ''@/lib/logger'' @ [CHR 0x27]"
  have d: "sublist ?L ''import { logger } from '@/lib/logger'\<newline>''"
    unfolding str_in_sublist [symmetric] by code_simp
  have a: "sublist ?L ''import { createScopedLogger } from '@/lib/logger'\<newline>\<newline>const logger = createScopedLogger(''"
    unfolding str_in_sublist [symmetric] by code_simp
  show ?thesis
  proof (cases scope)
    case None
    with d show ?thesis by (simp add: import_statement_def)
  next
    case (Some s)
    show ?thesis
    proof (cases "s = []")
      case True
      with Some d show ?thesis by (simp add: import_statement_def)
    next
      case False
      from a have "sublist ?L (''import { createScopedLogger } from '@/lib/logger'\<newline>\<newline>const logger = createScopedLogger(''
                       @ ([CHR 0x27] @ s @ [CHR 0x27] @ '')\<newline>''))"
        by (rule sublist_in_front)
      with Some False show ?thesis by (simp add: import_statement_def)
    qed
  qed
qed

lemma join_member: "x \<in> set ls \<Longrightarrow> sublist x (join sep ls)"
proof (induction sep ls rule: join.induct)
  case (1 sep)
  then show ?case by simp
next
  case (2 sep l)
  then show ?case by simp
next
  case (3 sep l m ls)
  show ?case
  proof (cases "x = l")
    case True
    then show ?thesis by (simp add: sublist_def) (metis append_Nil)
  next
    case False
    with 3 have "sublist x (join sep (m # ls))" by simp
    then have "sublist x ((l @ sep) @ join sep (m # ls))"
      by (auto simp: sublist_def) (metis append.assoc)
    then show ?thesis by simp
  qed
qed

lemma insert_import_keeps_stmt: "sublist stmt (insert_import content stmt)"
proof (cases "0 \<le> last_import_idx (split_on CHR ''\<newline>'' content)")
  case True
  then show ?thesis
    by (simp add: insert_import_def Let_def del: join.simps) (rule join_member, simp)
next
  case False
  then show ?thesis
    by (simp add: insert_import_def Let_def sublist_def) (metis append_Nil)
qed

lemma replace_console_keeps_logger:
  assumes "sublist (CHR 0x27 # ''@/lib/logger'' @ [CHR 0x27]) t"
  shows "sublist (CHR 0x27 # ''@/lib/logger'' @ [CHR 0x27]) (replace_console t)"
proof -
  have n: "\<not> sublist ''console.log('' ''@/lib/logger''"
    "\<not> sublist ''console.error('' ''@/lib/logger''"
    "\<not> sublist ''console.warn('' ''@/lib/logger''"
    "\<not> sublist ''console.info('' ''@/lib/logger''"
    "\<not> sublist ''console.debug('' ''@/lib/logger''"
    unfolding str_in_sublist [symmetric] by code_simp+
  have q: "CHR 0x27 \<notin> set ''console.log(''" "CHR 0x27 \<notin> set ''console.error(''"
    "CHR 0x27 \<notin> set ''console.warn(''" "CHR 0x27 \<notin> set ''console.info(''"
    "CHR 0x27 \<notin> set ''console.debug(''"
    by simp_all
  note k = replace_all_keeps_quoted
  show ?thesis
    unfolding replace_console_def Let_def
    by (intro k [OF q(5) n(5)] k [OF q(4) n(4)] k [OF q(3) n(3)] k [OF q(2) n(2)]
        k [OF q(1) n(1)] assms)
qed

lemma sublist_read_text:
  assumes "CHR 0x0D \<notin> set pat" "CHR 0x0A \<notin> set pat" "pat \<noteq> []"
  shows "sublist pat s \<Longrightarrow> sublist pat (read_text s)"
proof (induction s rule: read_text.induct)
  case 1
  then show ?case by simp
next
  case (2 c)
  have "prefix pat (read_text [c]) \<longleftrightarrow> prefix pat [c]"
    using assms by (intro prefix_read_text)
  with 2 assms(3) show ?case by (auto simp: sublist_Cons_right)
next
  case (3 c d cs)
  have p: "prefix pat (read_text (c # d # cs)) \<longleftrightarrow> prefix pat (c # d # cs)"
    using assms by (intro prefix_read_text)
  have n: "\<And>t. \<not> prefix pat (CHR 0x0D # t)" "\<And>t. \<not> prefix pat (CHR 0x0A # t)"
    using assms by (cases pat; auto)+
  from "3.prems" consider "prefix pat (c # d # cs)" | "sublist pat (d # cs)"
    by (auto simp: sublist_Cons_right)
  then show ?case
  proof cases
    case 1
    with p have "prefix pat (read_text (c # d # cs))" by simp
    then show ?thesis by (rule prefix_imp_sublist)
  next
    case 2
    show ?thesis
    proof (cases "c = CHR 0x0D \<and> d = CHR 0x0A")
      case True
      with 2 n have "sublist pat cs" by (auto simp: sublist_Cons_right)
      with 3 True have "sublist pat (read_text cs)" by simp
      with True show ?thesis by (simp add: sublist_Cons_right)
    next
      case False
      with 3 2 have "sublist pat (read_text (d # cs))" by auto
      with False show ?thesis by (auto simp: sublist_Cons_right)
    qed
  qed
qed

lemma migrated_text_names_logger:
  "already_migrated
     (read_text (replace_console (insert_import content (import_statement scope))))"
proof -
  let ?L = "CHR 0x27 # ''@/lib/logger'' @ [CHR 0x27]"
  have "sublist ?L (insert_import content (import_statement scope))"
    using import_statement_names_logger insert_import_keeps_stmt
    by (rule sublist_order.order.trans)
  then have "sublist ?L (replace_console (insert_import content (import_statement scope)))"
    by (rule replace_console_keeps_logger)
  then have "sublist ?L
      (read_text (replace_console (insert_import content (import_statement scope))))"
    by (intro sublist_read_text) simp_all
  then show ?thesis
    unfolding already_migrated_def str_in_sublist by (rule disjI1)
qed

text \<open>One call: a settled file is skipped, the file of the entry is settled afterwards,
  and a settled file at another path is touched only if that path is the backup path.\<close>

lemma logged_settled: "logged fs x \<Longrightarrow> settled fs x"
  by (auto simp: logged_def settled_def split: option.splits)

lemma settled_cong: "fs x = fs' x \<Longrightarrow> settled fs x = settled fs' x"
  by (simp add: settled_def)

lemma logged_cong: "fs x = fs' x \<Longrightarrow> logged fs x = logged fs' x"
  by (simp add: logged_def)

lemma migrate_file_settled:
  assumes "settled (files w) (full_path_of b p)"
  shows "\<exists>m. migrate_file p b w = (False, print m w) \<and> is_skip_print (Print m)"
  using assms
  by (rule_tac migrate_file_cases [where w = w and base_dir = b and p = p])
     (auto simp: settled_def)

lemma migrate_file_logged:
  assumes "logged (files w) (full_path_of b p)"
  shows "migrate_file p b w = (False, print (AlreadyMigrated p) w)"
  using assms
  by (rule_tac migrate_file_cases [where w = w and base_dir = b and p = p])
     (auto simp: logged_def)

lemma migrate_file_settles:
  "settled (files (snd (migrate_file p b w))) (full_path_of b p)"
  "fst (migrate_file p b w) \<Longrightarrow> logged (files (snd (migrate_file p b w))) (full_path_of b p)"
  by (rule migrate_file_cases [where w = w and base_dir = b and p = p];
      simp add: settled_def logged_def migrated_text_names_logger)+

lemma migrate_file_other:
  assumes "settled (files w) x" "x \<noteq> full_path_of b q @ ''.bak''"
  shows "files (snd (migrate_file q b w)) x = files w x"
  using assms
  by (rule_tac migrate_file_cases [where w = w and base_dir = b and p = q])
     (auto simp: settled_def)

lemma migrate_file_trace:
  assumes "Print (Migrated p) \<in> set (trace (snd (migrate_file q b w)))"
  shows "Print (Migrated p) \<in> set (trace w) \<or> (p = q \<and> fst (migrate_file q b w))"
  using assms
  by (rule_tac migrate_file_cases [where w = w and base_dir = b and p = q]) auto

lemma migrate_loop_Cons:
  "migrate_loop b (q # rest) (c, w) =
     migrate_loop b rest
       (if fst (migrate_file q b w)
        then c\<lparr>total := total c + 1, migrated := migrated c + 1\<rparr>
        else c\<lparr>total := total c + 1, skipped := skipped c + 1\<rparr>,
        snd (migrate_file q b w))"
  by (simp add: Let_def split: prod.splits)

text \<open>The loop, for a manifest in which no entry is the backup path of another.\<close>

lemma print_inject: "print m w = print m' w \<Longrightarrow> m = m'"
proof -
  assume "print m w = print m' w"
  then have "trace (print m w) = trace (print m' w)" by simp
  then show ?thesis by simp
qed

lemma migrate_loop_other:
  "settled (files w) x \<Longrightarrow> (\<forall>q\<in>set ms. x \<noteq> full_path_of b q @ ''.bak'') \<Longrightarrow>
   files (snd (migrate_loop b ms (c, w))) x = files w x"
proof (induction ms arbitrary: c w)
  case Nil
  then show ?case by simp
next
  case (Cons q rest)
  let ?w1 = "snd (migrate_file q b w)"
  have f: "files ?w1 x = files w x"
    using Cons.prems by (intro migrate_file_other) auto
  then have "settled (files ?w1) x"
    using Cons.prems(1) settled_cong [of "files ?w1" x "files w"] by simp
  then have "files (snd (migrate_loop b rest
        (if fst (migrate_file q b w)
         then c\<lparr>total := total c + 1, migrated := migrated c + 1\<rparr>
         else c\<lparr>total := total c + 1, skipped := skipped c + 1\<rparr>, ?w1))) x = files ?w1 x"
    using Cons.prems(2) by (intro Cons.IH) auto
  with f show ?case by (simp only: migrate_loop_Cons)
qed

lemma migrate_loop_settles:
  "(\<forall>p\<in>set ms. \<forall>q\<in>set ms. full_path_of b p \<noteq> full_path_of b q @ ''.bak'') \<Longrightarrow>
   p \<in> set ms \<Longrightarrow>
   settled (files (snd (migrate_loop b ms (c, w)))) (full_path_of b p)"
proof (induction ms arbitrary: c w)
  case Nil
  then show ?case by simp
next
  case (Cons q rest)
  let ?w1 = "snd (migrate_file q b w)"
  let ?c1 = "if fst (migrate_file q b w)
         then c\<lparr>total := total c + 1, migrated := migrated c + 1\<rparr>
         else c\<lparr>total := total c + 1, skipped := skipped c + 1\<rparr>"
  show ?case
  proof (cases "p \<in> set rest")
    case True
    have "settled (files (snd (migrate_loop b rest (?c1, ?w1)))) (full_path_of b p)"
      using Cons.prems(1) True by (intro Cons.IH) auto
    then show ?thesis by (simp only: migrate_loop_Cons)
  next
    case False
    with Cons.prems(2) have pq: "p = q" by simp
    have s: "settled (files ?w1) (full_path_of b p)"
      unfolding pq by (rule migrate_file_settles(1))
    have "files (snd (migrate_loop b rest (?c1, ?w1))) (full_path_of b p)
            = files ?w1 (full_path_of b p)"
      using s Cons.prems(1) pq by (intro migrate_loop_other) auto
    then have "settled (files (snd (migrate_loop b rest (?c1, ?w1)))) (full_path_of b p)"
      using s settled_cong by blast
    then show ?thesis by (simp only: migrate_loop_Cons)
  qed
qed

lemma migrate_loop_logged:
  "(\<forall>p\<in>set ms. \<forall>q\<in>set ms. full_path_of b p \<noteq> full_path_of b q @ ''.bak'') \<Longrightarrow>
   Print (Migrated p) \<in> set (trace (snd (migrate_loop b ms (c, w)))) \<Longrightarrow>
   Print (Migrated p) \<in> set (trace w)
   \<or> (p \<in> set ms \<and> logged (files (snd (migrate_loop b ms (c, w)))) (full_path_of b p))"
proof (induction ms arbitrary: c w)
  case Nil
  then show ?case by simp
next
  case (Cons q rest)
  let ?w1 = "snd (migrate_file q b w)"
  let ?c1 = "if fst (migrate_file q b w)
         then c\<lparr>total := total c + 1, migrated := migrated c + 1\<rparr>
         else c\<lparr>total := total c + 1, skipped := skipped c + 1\<rparr>"
  let ?end = "snd (migrate_loop b rest (?c1, ?w1))"
  have e: "snd (migrate_loop b (q # rest) (c, w)) = ?end"
    by (simp only: migrate_loop_Cons)
  have nc: "\<forall>p\<in>set rest. \<forall>q\<in>set rest. full_path_of b p \<noteq> full_path_of b q @ ''.bak''"
    using Cons.prems(1) by auto
  from Cons.prems(2) have "Print (Migrated p) \<in> set (trace ?end)" unfolding e .
  from Cons.IH [OF nc this]
  consider "Print (Migrated p) \<in> set (trace ?w1)"
    | "p \<in> set rest" "logged (files ?end) (full_path_of b p)"
    by blast
  then show ?case
  proof cases
    case 1
    from migrate_file_trace [OF 1]
    consider "Print (Migrated p) \<in> set (trace w)" | "p = q" "fst (migrate_file q b w)"
      by blast
    then show ?thesis
    proof cases
      case 1
      then show ?thesis by simp
    next
      case 2
      have l: "logged (files ?w1) (full_path_of b p)"
        unfolding 2(1) using 2(2) by (rule migrate_file_settles(2))
      then have "settled (files ?w1) (full_path_of b p)" by (rule logged_settled)
      then have "files ?end (full_path_of b p) = files ?w1 (full_path_of b p)"
        using Cons.prems(1) 2(1) by (intro migrate_loop_other) auto
      then have "logged (files ?end) (full_path_of b p)"
        using l logged_cong by blast
      then show ?thesis unfolding e using 2(1) by simp
    qed
  next
    case 2
    then show ?thesis unfolding e by simp
  qed
qed

lemma migrate_loop_idle:
  "(\<forall>p\<in>set ms. settled (files w) (full_path_of b p)) \<Longrightarrow>
   files (snd (migrate_loop b ms (c, w))) = files w
   \<and> migrated (fst (migrate_loop b ms (c, w))) = migrated c
   \<and> (\<exists>evs. trace (snd (migrate_loop b ms (c, w))) = trace w @ evs
          \<and> (\<forall>e\<in>set evs. is_skip_print e)
          \<and> (\<forall>p\<in>set ms. logged (files w) (full_path_of b p)
                \<longrightarrow> Print (AlreadyMigrated p) \<in> set evs))"
proof (induction ms arbitrary: c w)
  case Nil
  then show ?case by simp
next
  case (Cons q rest)
  from Cons.prems have sq: "settled (files w) (full_path_of b q)" by simp
  from migrate_file_settled [OF sq] obtain m where
    m: "migrate_file q b w = (False, print m w)" "is_skip_print (Print m)"
    by blast
  let ?c1 = "c\<lparr>total := total c + 1, skipped := skipped c + 1\<rparr>"
  have step: "migrate_loop b (q # rest) (c, w) = migrate_loop b rest (?c1, print m w)"
    using m(1) by (simp only: migrate_loop_Cons) simp
  have "\<forall>p\<in>set rest. settled (files (print m w)) (full_path_of b p)"
    using Cons.prems by simp
  from Cons.IH [OF this, of ?c1] obtain evs where
    ih: "files (snd (migrate_loop b rest (?c1, print m w))) = files w"
      "migrated (fst (migrate_loop b rest (?c1, print m w))) = migrated c"
      "trace (snd (migrate_loop b rest (?c1, print m w))) = trace w @ Print m # evs"
      "\<forall>e\<in>set evs. is_skip_print e"
      "\<forall>p\<in>set rest. logged (files w) (full_path_of b p)
                \<longrightarrow> Print (AlreadyMigrated p) \<in> set evs"
    by auto
  have lq: "logged (files w) (full_path_of b q) \<longrightarrow> m = AlreadyMigrated q"
    using migrate_file_logged [of w b q] m(1) by (auto dest: print_inject)
  have "\<forall>e\<in>set (Print m # evs). is_skip_print e" using m(2) ih(4) by simp
  moreover have "\<forall>p\<in>set (q # rest). logged (files w) (full_path_of b p)
                \<longrightarrow> Print (AlreadyMigrated p) \<in> set (Print m # evs)"
    using lq ih(5) by auto
  ultimately show ?case
    unfolding step using ih(1,2,3) by blast
qed

text \<open>No entry of the manifest ends in \<^verbatim>\<open>.bak\<close>; the output of a run is that of its loop
  followed by the summary.\<close>

lemma manifest_no_backup:
  "\<forall>p\<in>set FILES_TO_MIGRATE. \<forall>q\<in>set FILES_TO_MIGRATE.
     full_path_of b p \<noteq> full_path_of b q @ ''.bak''"
proof (intro ballI notI)
  fix p q
  assume p: "p \<in> set FILES_TO_MIGRATE"
    and eq: "full_path_of b p = full_path_of b q @ ''.bak''"
  have "list_all (\<lambda>p. \<not> suffix ''.bak'' p) FILES_TO_MIGRATE" by code_simp
  with p have n: "\<not> suffix ''.bak'' p" unfolding list_all_iff by blast
  from eq have "p = q @ ''.bak''" by (simp add: full_path_of_def)
  then have "suffix ''.bak'' p" by (simp add: suffix_def)
  with n show False by simp
qed

lemma run_parts:
  obtains c w2 tail where
    "migrate_loop b ms (\<lparr>total = 0, migrated = 0, skipped = 0\<rparr>,
        print Blank (print Rule (print Title (print Rule w)))) = (c, w2)"
    "fst (run ms b w) = c"
    "files (snd (run ms b w)) = files w2"
    "trace (snd (run ms b w)) = trace w2 @ tail"
    "\<forall>e\<in>set tail. \<not> is_migrated_print e \<and> (\<forall>p t. e \<noteq> Write p t)"
proof -
  obtain c w2 where l: "migrate_loop b ms (\<lparr>total = 0, migrated = 0, skipped = 0\<rparr>,
        print Blank (print Rule (print Title (print Rule w)))) = (c, w2)"
    by (cases "migrate_loop b ms (\<lparr>total = 0, migrated = 0, skipped = 0\<rparr>,
        print Blank (print Rule (print Title (print Rule w))))")
  show ?thesis
  proof (cases "0 < migrated c")
    case True
    show ?thesis
      by (rule that [OF l, where tail = "[Print Blank, Print Rule, Print SummaryTitle, Print Rule,
            Print (TotalFiles (total c)), Print (MigratedCount (migrated c)),
            Print (SkippedCount (skipped c)), Print Blank, Print ReviewWarning,
            Print BackupNote, Print Blank, Print RemoveIntro, Print RemoveCommand]"])
         (simp_all add: run_def l Let_def True)
  next
    case False
    show ?thesis
      by (rule that [OF l, where tail = "[Print Blank, Print Rule, Print SummaryTitle, Print Rule,
            Print (TotalFiles (total c)), Print (MigratedCount (migrated c)),
            Print (SkippedCount (skipped c)), Print Blank]"])
         (simp_all add: run_def l Let_def False)
  qed
qed

lemma migrate_loop_trace_grows:
  "set (trace w) \<subseteq> set (trace (snd (migrate_loop b ms (c, w))))"
proof -
  obtain c' w' where r: "migrate_loop b ms (c, w) = (c', w')"
    by (cases "migrate_loop b ms (c, w)")
  from migrate_loop_counts [OF r] show ?thesis by (auto simp: r)
qed

lemma first_entry_is_reported:
  assumes "fst (migrate_file p b (print Blank (print Rule (print Title (print Rule w)))))"
  shows "Print (Migrated p) \<in> set (trace (snd (run (p # rest) b w)))"
proof -
  let ?c0 = "\<lparr>total = 0, migrated = 0, skipped = 0\<rparr>"
  let ?h = "print Blank (print Rule (print Title (print Rule w)))"
  have "Print (Migrated p) \<in> set (trace (snd (migrate_file p b ?h)))"
    using assms
    by (rule_tac migrate_file_cases [where w = ?h and base_dir = b and p = p]) auto
  then have "Print (Migrated p) \<in> set (trace (snd (migrate_loop b (p # rest) (?c0, ?h))))"
    unfolding migrate_loop_Cons using migrate_loop_trace_grows by blast
  moreover obtain c w2 tail where
    "migrate_loop b (p # rest) (?c0, ?h) = (c, w2)"
    "trace (snd (run (p # rest) b w)) = trace w2 @ tail"
    by (rule run_parts [of b "p # rest" w])
  ultimately show ?thesis by simp
qed

text \<open>
  C3. Run the script on any files, and run it again on the files that the first run
  left. The second run leaves every file as the first run left it and writes nothing,
  counts no entry as migrated, and reports as already migrated every entry that the
  first run reported as migrated.
\<close>

theorem second_run_changes_nothing:
  assumes "first = snd (main base_dir \<lparr>files = fs, trace = []\<rparr>)"
    and "second = main base_dir \<lparr>files = files first, trace = []\<rparr>"
  shows "files (snd second) = files first
       \<and> (\<forall>p. Print (Migrated p) \<in> set (trace first)
              \<longrightarrow> Print (AlreadyMigrated p) \<in> set (trace (snd second)))
       \<and> (\<forall>p t. Write p t \<notin> set (trace (snd second)))
       \<and> migrated (fst second) = 0"
proof -
  let ?c0 = "\<lparr>total = 0, migrated = 0, skipped = 0\<rparr>"
  let ?h1 = "print Blank (print Rule (print Title (print Rule \<lparr>files = fs, trace = []\<rparr>)))"
  let ?h2 = "print Blank (print Rule (print Title (print Rule
               \<lparr>files = files first, trace = []\<rparr>)))"
  obtain c w2 tail where
    l1: "migrate_loop base_dir FILES_TO_MIGRATE (?c0, ?h1) = (c, w2)"
    and f1: "files (snd (run FILES_TO_MIGRATE base_dir \<lparr>files = fs, trace = []\<rparr>)) = files w2"
    and t1: "trace (snd (run FILES_TO_MIGRATE base_dir \<lparr>files = fs, trace = []\<rparr>))
               = trace w2 @ tail"
    and n1: "\<forall>e\<in>set tail. \<not> is_migrated_print e \<and> (\<forall>p t. e \<noteq> Write p t)"
    by (rule run_parts [of base_dir FILES_TO_MIGRATE "\<lparr>files = fs, trace = []\<rparr>"])
  have first: "first = snd (run FILES_TO_MIGRATE base_dir \<lparr>files = fs, trace = []\<rparr>)"
    using assms(1) by (simp add: main_def)
  have w2: "w2 = snd (migrate_loop base_dir FILES_TO_MIGRATE (?c0, ?h1))"
    using l1 by simp
  have ff: "files first = files w2" using first f1 by simp
  have fh: "files ?h2 = files w2" using ff by simp
  have settled: "\<forall>p\<in>set FILES_TO_MIGRATE. settled (files ?h2) (full_path_of base_dir p)"
  proof
    fix p assume "p \<in> set FILES_TO_MIGRATE"
    with manifest_no_backup [of base_dir]
    have "settled (files w2) (full_path_of base_dir p)"
      unfolding w2 by (rule migrate_loop_settles)
    then show "settled (files ?h2) (full_path_of base_dir p)"
      unfolding fh .
  qed
  from migrate_loop_idle [OF settled, of ?c0] obtain evs where
    i1: "files (snd (migrate_loop base_dir FILES_TO_MIGRATE (?c0, ?h2))) = files ?h2"
    and i2: "migrated (fst (migrate_loop base_dir FILES_TO_MIGRATE (?c0, ?h2))) = 0"
    and i3: "trace (snd (migrate_loop base_dir FILES_TO_MIGRATE (?c0, ?h2))) = trace ?h2 @ evs"
    and i4: "\<forall>e\<in>set evs. is_skip_print e"
    and i5: "\<forall>p\<in>set FILES_TO_MIGRATE. logged (files ?h2) (full_path_of base_dir p)
                \<longrightarrow> Print (AlreadyMigrated p) \<in> set evs"
    by auto
  obtain c' w2' tail' where
    l2: "migrate_loop base_dir FILES_TO_MIGRATE (?c0, ?h2) = (c', w2')"
    and c2: "fst (run FILES_TO_MIGRATE base_dir \<lparr>files = files first, trace = []\<rparr>) = c'"
    and f2: "files (snd (run FILES_TO_MIGRATE base_dir \<lparr>files = files first, trace = []\<rparr>))
               = files w2'"
    and t2: "trace (snd (run FILES_TO_MIGRATE base_dir \<lparr>files = files first, trace = []\<rparr>))
               = trace w2' @ tail'"
    and n2: "\<forall>e\<in>set tail'. \<not> is_migrated_print e \<and> (\<forall>p t. e \<noteq> Write p t)"
    by (rule run_parts [of base_dir FILES_TO_MIGRATE "\<lparr>files = files first, trace = []\<rparr>"])
  have second: "second = run FILES_TO_MIGRATE base_dir \<lparr>files = files first, trace = []\<rparr>"
    using assms(2) by (simp add: main_def)
  have tr2: "trace (snd second) = trace ?h2 @ evs @ tail'"
    using second t2 l2 i3 by simp
  have "files (snd second) = files first"
    using second f2 l2 i1 by simp
  moreover have "\<forall>p. Print (Migrated p) \<in> set (trace first)
              \<longrightarrow> Print (AlreadyMigrated p) \<in> set (trace (snd second))"
  proof (intro allI impI)
    fix p assume "Print (Migrated p) \<in> set (trace first)"
    then have "Print (Migrated p) \<in> set (trace w2 @ tail)" using first t1 by simp
    moreover have "Print (Migrated p) \<notin> set tail" using n1 by auto
    ultimately have "Print (Migrated p)
        \<in> set (trace (snd (migrate_loop base_dir FILES_TO_MIGRATE (?c0, ?h1))))"
      using w2 by simp
    with manifest_no_backup [of base_dir]
    have "Print (Migrated p) \<in> set (trace ?h1)
          \<or> (p \<in> set FILES_TO_MIGRATE
              \<and> logged (files (snd (migrate_loop base_dir FILES_TO_MIGRATE (?c0, ?h1))))
                   (full_path_of base_dir p))"
      by (rule migrate_loop_logged)
    moreover have "Print (Migrated p) \<notin> set (trace ?h1)" by simp
    ultimately have "p \<in> set FILES_TO_MIGRATE" "logged (files w2) (full_path_of base_dir p)"
      using w2 by simp_all
    then have "Print (AlreadyMigrated p) \<in> set evs"
      using i5 fh by simp
    then show "Print (AlreadyMigrated p) \<in> set (trace (snd second))"
      unfolding tr2 by simp
  qed
  moreover have "\<forall>p t. Write p t \<notin> set (trace (snd second))"
  proof (intro allI notI)
    fix p t assume "Write p t \<in> set (trace (snd second))"
    then consider "Write p t \<in> set (trace ?h2)" | "Write p t \<in> set evs"
      | "Write p t \<in> set tail'"
      unfolding tr2 by auto
    then show False
    proof cases
      case 1
      then show False by simp
    next
      case 2
      with i4 have "is_skip_print (Write p t)" by blast
      then show False by simp
    next
      case 3
      with n2 show False by blast
    qed
  qed
  moreover have "migrated (fst second) = 0"
    using second c2 l2 i2 by simp
  ultimately show ?thesis by blast
qed

theorem second_run_changes_nothing_witness:
  "Print (Migrated ''src/app/api/account-balances/route.ts'')
     \<in> set (trace (snd (main ''/repo''
          \<lparr>files = [''/repo/src/app/api/account-balances/route.ts'' \<mapsto> ''console.log(1);''],
           trace = []\<rparr>)))
   \<and> Print (AlreadyMigrated ''src/app/api/account-balances/route.ts'')
     \<in> set (trace (snd (main ''/repo''
          \<lparr>files = files (snd (main ''/repo''
              \<lparr>files = [''/repo/src/app/api/account-balances/route.ts''
                          \<mapsto> ''console.log(1);''],
               trace = []\<rparr>)),
           trace = []\<rparr>)))"
proof -
  let ?p = "''src/app/api/account-balances/route.ts''"
  let ?fs = "[''/repo/src/app/api/account-balances/route.ts'' \<mapsto> ''console.log(1);'']"
  let ?w = "\<lparr>files = ?fs, trace = []\<rparr>"
  have m: "fst (migrate_file ?p ''/repo''
             (print Blank (print Rule (print Title (print Rule ?w)))))"
    by code_simp
  have "Print (Migrated ?p) \<in> set (trace (snd (run (?p # tl FILES_TO_MIGRATE) ''/repo'' ?w)))"
    using m by (rule first_entry_is_reported)
  moreover have "?p # tl FILES_TO_MIGRATE = FILES_TO_MIGRATE"
    by (simp add: FILES_TO_MIGRATE_def)
  ultimately have h: "Print (Migrated ?p) \<in> set (trace (snd (main ''/repo'' ?w)))"
    by (simp only: main_def)
  note t = second_run_changes_nothing [OF refl refl, of "''/repo''" ?fs]
  from t have "\<forall>p. Print (Migrated p) \<in> set (trace (snd (main ''/repo'' ?w)))
      \<longrightarrow> Print (AlreadyMigrated p)
            \<in> set (trace (snd (main ''/repo''
                 \<lparr>files = files (snd (main ''/repo'' ?w)), trace = []\<rparr>)))"
    by (rule conjunct2 [THEN conjunct1])
  then have "Print (Migrated ?p) \<in> set (trace (snd (main ''/repo'' ?w)))
      \<longrightarrow> Print (AlreadyMigrated ?p)
            \<in> set (trace (snd (main ''/repo''
                 \<lparr>files = files (snd (main ''/repo'' ?w)), trace = []\<rparr>)))"
    by (rule spec)
  then have "Print (AlreadyMigrated ?p)
            \<in> set (trace (snd (main ''/repo''
                 \<lparr>files = files (snd (main ''/repo'' ?w)), trace = []\<rparr>)))"
    using h by (rule mp)
  with h show ?thesis by (rule conjI)
qed

end
